theory Spec2Isabelle
  imports Complex_Main "HOL-Library.Sublist"
begin

section \<open>Python strings\<close>

text \<open>
  A Python \<^verbatim>\<open>str\<close> is a sequence of Unicode code points, and \<^verbatim>\<open>len\<close> counts code
  points. A string is therefore a list of code points, each a natural number.
  \<open>str\<close> embeds an ASCII literal.
\<close>

type_synonym codepoint = nat
type_synonym pystr = "codepoint list"

definition str :: "string \<Rightarrow> pystr" where
  "str s = map of_char s"

text \<open>
  \<^verbatim>\<open>str.isspace\<close> for one code point, which is what \<^verbatim>\<open>str.strip()\<close> and
  \<^verbatim>\<open>str.split()\<close> without arguments use: TAB..CR, FS..US, SPACE, NEL, NBSP, and the
  Unicode space separators.
\<close>

definition isspace :: "codepoint \<Rightarrow> bool" where
  "isspace c \<longleftrightarrow>
     (9 \<le> c \<and> c \<le> 13) \<or> (28 \<le> c \<and> c \<le> 32) \<or> c = 133 \<or> c = 160 \<or> c = 5760 \<or>
     (8192 \<le> c \<and> c \<le> 8202) \<or> c = 8232 \<or> c = 8233 \<or> c = 8239 \<or> c = 8287 \<or> c = 12288"

definition lstrip :: "pystr \<Rightarrow> pystr" where
  "lstrip s = dropWhile isspace s"

definition rstrip :: "pystr \<Rightarrow> pystr" where
  "rstrip s = rev (dropWhile isspace (rev s))"

definition strip :: "pystr \<Rightarrow> pystr" where
  "strip s = rstrip (lstrip s)"

text \<open>The slice \<^verbatim>\<open>xs[i:]\<close>: a negative start counts from the end, and both ends clamp.\<close>

definition slice_from :: "int \<Rightarrow> 'a list \<Rightarrow> 'a list" where
  "slice_from i xs =
     (if i < 0 then drop (nat (int (length xs) + i)) xs else drop (nat i) xs)"

section \<open>The chunker\<close>

text \<open>The delimiter \<^verbatim>\<open>'. '\<close>: FULL STOP, SPACE.\<close>

definition sep :: pystr where
  "sep = [46, 32]"

text \<open>
  \<^verbatim>\<open>text.split('. ')\<close>: the text is cut at the non-overlapping occurrences of the
  delimiter, scanned from the left; the first argument is the piece read so far.
  The result is never empty.
\<close>

fun split_sep :: "pystr \<Rightarrow> pystr \<Rightarrow> pystr list" where
  "split_sep cur [] = [cur]"
| "split_sep cur [c] = [cur @ [c]]"
| "split_sep cur (c # d # cs) =
     (if c = 46 \<and> d = 32 then cur # split_sep [] cs
      else split_sep (cur @ [c]) (d # cs))"

text \<open>
  \<^verbatim>\<open>current_chunk[-overlap:] if len(current_chunk) > overlap else current_chunk\<close>
\<close>

definition overlap_text :: "int \<Rightarrow> pystr \<Rightarrow> pystr" where
  "overlap_text overlap current_chunk =
     (if int (length current_chunk) > overlap then slice_from (- overlap) current_chunk
      else current_chunk)"

text \<open>
  The loop over the sentences, on the pair of the chunks emitted so far and the running
  chunk. A non-empty string is truthy.
\<close>

fun chunk_loop :: "int \<Rightarrow> int \<Rightarrow> pystr list \<Rightarrow> pystr list \<times> pystr \<Rightarrow> pystr list \<times> pystr" where
  "chunk_loop chunk_size overlap [] st = st"
| "chunk_loop chunk_size overlap (sentence # rest) (chunks, current_chunk) =
     (if int (length current_chunk) + int (length sentence) > chunk_size \<and> current_chunk \<noteq> []
      then chunk_loop chunk_size overlap rest
             (chunks @ [strip current_chunk],
              overlap_text overlap current_chunk @ sep @ sentence)
      else chunk_loop chunk_size overlap rest
             (chunks,
              if current_chunk \<noteq> [] then current_chunk @ sep @ sentence else sentence))"

definition chunk_text :: "pystr \<Rightarrow> int \<Rightarrow> int \<Rightarrow> pystr list" where
  "chunk_text text chunk_size overlap =
     (if text = [] \<or> length (strip text) = 0 then []
      else (case chunk_loop chunk_size overlap (split_sep [] text) ([], []) of
              (chunks, current_chunk) \<Rightarrow>
                if strip current_chunk \<noteq> [] then chunks @ [strip current_chunk]
                else chunks))"

section \<open>Calls into libraries and services\<close>

text \<open>
  A call into a library or a service either returns a value or raises. The optional
  libraries are imported under \<^verbatim>\<open>try\<close>; a failed import leaves the name \<^verbatim>\<open>None\<close>.
\<close>

datatype 'a outcome = Raises | Returns 'a

record deps =
  fitz_available :: bool
  ocr_available :: bool
  psycopg2_available :: bool

section \<open>The text extractor\<close>

text \<open>
  What \<open>extract_text_from_pdf\<close> reads of one page of the opened document:
  \<^verbatim>\<open>page.get_text("text") or ""\<close>, the number of entries of \<^verbatim>\<open>page.get_images()\<close> and of
  \<^verbatim>\<open>page.get_drawings()\<close>, and the text that rendering the page at 150 DPI and running
  the OCR engine on the image gives. The last three are called inside the \<^verbatim>\<open>try\<close> block.
\<close>

record pdf_page =
  get_text :: pystr
  get_images :: "nat outcome"
  get_drawings :: "nat outcome"
  image_to_string :: "pystr outcome"

text \<open>The dictionary \<^verbatim>\<open>{"page_no": i+1, "text": text}\<close>.\<close>

record page_dict =
  page_no :: nat
  text' :: pystr

datatype extract_error = PdfProcessingNotAvailable | OpenFailed

text \<open>
  The render-and-recognise step with its handler: the recognised text is joined to the
  extracted text with a newline and the result is stripped; if a call raises, the text
  stays as it was. The flag says that the OCR engine was called.
\<close>

definition run_ocr :: "pdf_page \<Rightarrow> pystr \<times> bool" where
  "run_ocr page =
     (case image_to_string page of
        Raises \<Rightarrow> (get_text page, True)
      | Returns ocr \<Rightarrow> (strip (get_text page @ [10] @ ocr), True))"

text \<open>
  The body of the loop for one page. \<^verbatim>\<open>page.get_images() or page.get_drawings()\<close> asks
  for the drawings only when there is no image; a non-empty list is truthy.
\<close>

definition page_text :: "bool \<Rightarrow> pdf_page \<Rightarrow> pystr \<times> bool" where
  "page_text ocr_libs page =
     (if length (strip (get_text page)) < 20 \<and> ocr_libs then
        (case get_images page of
           Raises \<Rightarrow> (get_text page, False)
         | Returns n \<Rightarrow>
             if n \<noteq> 0 then run_ocr page
             else (case get_drawings page of
                     Raises \<Rightarrow> (get_text page, False)
                   | Returns m \<Rightarrow> if m \<noteq> 0 then run_ocr page else (get_text page, False)))
      else (get_text page, False))"

text \<open>
  \<^verbatim>\<open>for i, page in enumerate(doc)\<close>, from index \<open>i\<close> on. Beside the pages, the numbers of
  the pages on which the OCR engine was called are collected.
\<close>

fun extract_pages :: "bool \<Rightarrow> nat \<Rightarrow> pdf_page list \<Rightarrow> page_dict list \<times> nat list" where
  "extract_pages ocr_libs i [] = ([], [])"
| "extract_pages ocr_libs i (page # rest) =
     (case page_text ocr_libs page of
        (t, called) \<Rightarrow>
          (case extract_pages ocr_libs (i + 1) rest of
             (pages, ocr_pages) \<Rightarrow>
               (\<lparr>page_no = i + 1, text' = t\<rparr> # pages,
                if called then (i + 1) # ocr_pages else ocr_pages)))"

text \<open>The second argument is what \<^verbatim>\<open>fitz.open(path)\<close> gives.\<close>

definition extract_text_from_pdf ::
    "deps \<Rightarrow> pdf_page list outcome \<Rightarrow> extract_error + page_dict list \<times> nat list" where
  "extract_text_from_pdf d opened =
     (if \<not> fitz_available d then Inl PdfProcessingNotAvailable
      else (case opened of
              Raises \<Rightarrow> Inl OpenFailed
            | Returns doc \<Rightarrow> Inr (extract_pages (ocr_available d) 0 doc)))"

section \<open>The source fetcher\<close>

text \<open>
  The local file system, the object store, the answers of HTTP servers, the directory
  and the candidate names \<^verbatim>\<open>tempfile.mktemp\<close> draws from, and \<^verbatim>\<open>pathlib.Path(key).suffix\<close>.
\<close>

record world =
  files :: "pystr \<rightharpoonup> pystr"
  objects :: "pystr \<times> pystr \<rightharpoonup> pystr"
  requests_get :: "pystr \<Rightarrow> (int \<times> pystr) outcome"
  tmp_dir :: pystr
  tmp_names :: "pystr list"
  path_suffix :: "pystr \<Rightarrow> pystr"

text \<open>
  The three \<^verbatim>\<open>ValueError\<close>s that \<open>download_from_minio\<close> raises, by their messages, and
  the failures of the libraries it calls.
\<close>

datatype fetch_error =
    FileNotFound pystr
  | MinioUrlMalformed
  | FailedToDownload
  | FileExistsError
  | S3ClientError
  | RequestsError

text \<open>\<^verbatim>\<open>os.path.join(dir, name)\<close> for a name that does not start with a slash.\<close>

definition path_join :: "pystr \<Rightarrow> pystr \<Rightarrow> pystr" where
  "path_join dir name = (if dir = [] \<or> last dir = 47 then dir @ name else dir @ [47] @ name)"

text \<open>
  \<^verbatim>\<open>tempfile.mktemp(suffix=...)\<close>: the first candidate \<^verbatim>\<open>dir/tmp<name><suffix>\<close> that does
  not exist; \<^verbatim>\<open>FileExistsError\<close> when the candidates run out. A suffix that holds NUL,
  which the library refuses, is not modelled.
\<close>

fun mktemp :: "(pystr \<rightharpoonup> pystr) \<Rightarrow> pystr \<Rightarrow> pystr list \<Rightarrow> pystr \<Rightarrow> pystr option" where
  "mktemp fs dir [] sfx = None"
| "mktemp fs dir (name # names) sfx =
     (if fs (path_join dir (str ''tmp'' @ name @ sfx)) = None
      then Some (path_join dir (str ''tmp'' @ name @ sfx))
      else mktemp fs dir names sfx)"

text \<open>\<^verbatim>\<open>path.split("/", 1)\<close>: at most one cut, at the first slash.\<close>

definition split_once :: "codepoint \<Rightarrow> pystr \<Rightarrow> pystr list" where
  "split_once c s =
     (if c \<in> set s then [takeWhile (\<lambda>x. x \<noteq> c) s, tl (dropWhile (\<lambda>x. x \<noteq> c) s)] else [s])"

text \<open>
  The result is the local path or the error, and the world after the call.
  \<^verbatim>\<open>url.partition("minio://")\<close> cuts a locator that starts with the scheme right after it.
  The directory of the temporary name exists, so \<^verbatim>\<open>os.makedirs(..., exist_ok=True)\<close>
  changes nothing.
\<close>

definition download_from_minio :: "world \<Rightarrow> pystr \<Rightarrow> (fetch_error + pystr) \<times> world" where
  "download_from_minio w url =
     (if prefix (str ''file://'') url then
        (if files w (drop 7 url) \<noteq> None then (Inr (drop 7 url), w)
         else (Inl (FileNotFound (drop 7 url)), w))
      else if prefix (str ''minio://'') url then
        (case split_once 47 (drop 8 url) of
           [bucket, key] \<Rightarrow>
             (case mktemp (files w) (tmp_dir w) (tmp_names w) (path_suffix w key) of
                None \<Rightarrow> (Inl FileExistsError, w)
              | Some local \<Rightarrow>
                  (case objects w (bucket, key) of
                     None \<Rightarrow> (Inl S3ClientError, w)
                   | Some body \<Rightarrow> (Inr local, w\<lparr>files := (files w)(local \<mapsto> body)\<rparr>)))
         | _ \<Rightarrow> (Inl MinioUrlMalformed, w))
      else
        (case requests_get w url of
           Raises \<Rightarrow> (Inl RequestsError, w)
         | Returns (status_code, content) \<Rightarrow>
             if status_code \<noteq> 200 then (Inl FailedToDownload, w)
             else (case mktemp (files w) (tmp_dir w) (tmp_names w) (str ''.bin'') of
                     None \<Rightarrow> (Inl FileExistsError, w)
                   | Some local \<Rightarrow> (Inr local, w\<lparr>files := (files w)(local \<mapsto> content)\<rparr>))))"

section \<open>The relational store\<close>

text \<open>
  The tables as the lists of their rows, in storage order, a row as the tuple of its
  columns: \<^verbatim>\<open>documents(id, title, file_url, status)\<close>,
  \<^verbatim>\<open>document_pages(id, document_id, page_no, text)\<close> and
  \<^verbatim>\<open>chunks(id, document_id, page_no, text)\<close>; the time stamps are left out.
  \<open>chunks_id_seq\<close> is the last value of the sequence behind \<^verbatim>\<open>chunks.id\<close>.
\<close>

type_synonym document_row = "int \<times> pystr \<times> pystr \<times> pystr"
type_synonym page_row = "int \<times> int \<times> int \<times> pystr"
type_synonym chunk_row = "int \<times> int \<times> int \<times> pystr"

record database =
  documents :: "document_row list"
  document_pages :: "page_row list"
  chunks :: "chunk_row list"
  chunks_id_seq :: int

datatype detail = QueryCannotBeEmpty | DatabaseConnectionNotAvailable | QaProcessingFailed

text \<open>
  \<^verbatim>\<open>HTTPException(status_code, detail)\<close>, and any other exception of the database driver.
\<close>

datatype py_exception = HTTPException nat detail | DriverError

text \<open>The second argument is what \<^verbatim>\<open>psycopg2.connect(DATABASE_URL)\<close> gives.\<close>

definition pg_connect :: "deps \<Rightarrow> database outcome \<Rightarrow> py_exception + database" where
  "pg_connect d conn =
     (if \<not> psycopg2_available d then Inl (HTTPException 500 DatabaseConnectionNotAvailable)
      else (case conn of Raises \<Rightarrow> Inl DriverError | Returns db \<Rightarrow> Inr db))"

section \<open>Chunk-and-store\<close>

text \<open>
  The inner loops of \<open>embed_document\<close> for one fetched row \<^verbatim>\<open>(rid, page_no, text)\<close>: the
  tuples \<^verbatim>\<open>(document_id, page_no, idx, c)\<close> appended to \<^verbatim>\<open>all_chunks\<close>.
\<close>

definition page_chunks :: "int \<Rightarrow> int \<times> int \<times> pystr \<Rightarrow> (int \<times> int \<times> nat \<times> pystr) list" where
  "page_chunks document_id row =
     (case row of
        (rid, pno, t) \<Rightarrow>
          if t = [] \<or> length (strip t) = 0 then []
          else map (\<lambda>(idx, c). (document_id, pno, idx, c)) (enumerate 0 (chunk_text t 300 30)))"

definition all_chunks :: "database \<Rightarrow> int \<Rightarrow> (int \<times> int \<times> nat \<times> pystr) list" where
  "all_chunks db document_id =
     concat (map (page_chunks document_id)
       (map (\<lambda>(rid, d, pno, t). (rid, pno, t))
         (filter (\<lambda>(rid, d, pno, t). d = document_id) (document_pages db))))"

text \<open>\<^verbatim>\<open>records = [(r[0], r[1], r[3]) for r in batch]\<close>\<close>

definition records :: "(int \<times> int \<times> nat \<times> pystr) list \<Rightarrow> (int \<times> int \<times> pystr) list" where
  "records batch = map (\<lambda>(r0, r1, r2, r3). (r0, r1, r3)) batch"

text \<open>
  \<^verbatim>\<open>INSERT INTO chunks(document_id, page_no, text) VALUES ...\<close>: each row takes the next
  value of the sequence as its id.
\<close>

fun execute_values :: "database \<Rightarrow> (int \<times> int \<times> pystr) list \<Rightarrow> database" where
  "execute_values db [] = db"
| "execute_values db ((d, pno, t) # rest) =
     execute_values
       (db\<lparr>chunks := chunks db @ [(chunks_id_seq db + 1, d, pno, t)],
           chunks_id_seq := chunks_id_seq db + 1\<rparr>) rest"

text \<open>\<^verbatim>\<open>for i in range(0, len(all_chunks), 100)\<close>, from \<open>i\<close> on.\<close>

function store_batches :: "nat \<Rightarrow> (int \<times> int \<times> nat \<times> pystr) list \<Rightarrow> database \<Rightarrow> database" where
  "store_batches i cs db =
     (if i < length cs
      then store_batches (i + 100) cs (execute_values db (records (take 100 (drop i cs))))
      else db)"
  by pat_completeness auto
termination
  by (relation "measure (\<lambda>(i, cs, db). length cs - i)") auto

declare store_batches.simps [simp del]

definition embed_document :: "deps \<Rightarrow> database outcome \<Rightarrow> int \<Rightarrow> py_exception + database" where
  "embed_document d conn document_id =
     (case pg_connect d conn of
        Inl e \<Rightarrow> Inl e
      | Inr db \<Rightarrow>
          if all_chunks db document_id = [] then Inr db
          else Inr (store_batches 0 (all_chunks db document_id) db))"

section \<open>The retrieval and answer service\<close>

text \<open>
  \<^verbatim>\<open>str.lower\<close> and the case folding of \<^verbatim>\<open>ILIKE\<close>, on the ASCII letters; the other code
  points are left as they are.
\<close>

definition lower_cp :: "codepoint \<Rightarrow> codepoint" where
  "lower_cp c = (if 65 \<le> c \<and> c \<le> 90 then c + 32 else c)"

definition lower :: "pystr \<Rightarrow> pystr" where
  "lower s = map lower_cp s"

text \<open>\<^verbatim>\<open>str.split()\<close>: the maximal runs of non-whitespace; the first argument is the run read so far.\<close>

fun split_ws :: "pystr \<Rightarrow> pystr \<Rightarrow> pystr list" where
  "split_ws cur [] = (if cur = [] then [] else [cur])"
| "split_ws cur (c # cs) =
     (if isspace c then (if cur = [] then split_ws [] cs else cur # split_ws [] cs)
      else split_ws (cur @ [c]) cs)"

text \<open>
  \<^verbatim>\<open>[word.lower().strip() for word in inp.query.split() if len(word.strip()) > 1]\<close>
\<close>

definition query_words :: "pystr \<Rightarrow> pystr list" where
  "query_words q =
     map (\<lambda>word. strip (lower word)) (filter (\<lambda>word. length (strip word) > 1) (split_ws [] q))"

text \<open>
  The database's \<^verbatim>\<open>LIKE\<close>, pattern first: \<^verbatim>\<open>%\<close> (37) matches any run of characters,
  \<^verbatim>\<open>_\<close> (95) any single character, and a backslash (92) makes the next pattern character
  literal. A pattern that ends in a lone backslash matches nothing here; the patterns
  \<open>qa\<close> builds end in \<^verbatim>\<open>%\<close>.
\<close>

fun like_match :: "pystr \<Rightarrow> pystr \<Rightarrow> bool" where
  "like_match [] s = (s = [])"
| "like_match (p # ps) [] = (p = 37 \<and> like_match ps [])"
| "like_match (p # ps) (c # s) =
     (if p = 37 then like_match ps (c # s) \<or> like_match (p # ps) s
      else if p = 95 then like_match ps s
      else if p = 92 then (case ps of [] \<Rightarrow> False | q # qs \<Rightarrow> c = q \<and> like_match qs s)
      else c = p \<and> like_match ps s)"

text \<open>\<^verbatim>\<open>text ILIKE pattern\<close>\<close>

definition ilike :: "pystr \<Rightarrow> pystr \<Rightarrow> bool" where
  "ilike t pattern = like_match (lower pattern) (lower t)"

text \<open>
  The search statement
  \<^verbatim>\<open>SELECT id, document_id, page_no, text FROM chunks WHERE [document_id=%s AND] (text ILIKE %s OR ...) LIMIT %s\<close>.
  The driver refuses a text parameter that holds NUL, and the database a negative limit;
  a limit beyond 64 bits and a term that cannot be encoded, which the database and the
  driver refuse as well, are not modelled. Without \<^verbatim>\<open>ORDER BY\<close> the rows come in
  storage order.
\<close>

definition search_chunks ::
    "database \<Rightarrow> int option \<Rightarrow> pystr list \<Rightarrow> int \<Rightarrow> chunk_row list outcome" where
  "search_chunks db scope params limit =
     (if list_ex (\<lambda>p. 0 \<in> set p) params \<or> limit < 0 then Raises
      else Returns (take (nat limit)
             (filter (\<lambda>(cid, d, pno, t).
                        (case scope of None \<Rightarrow> True | Some i \<Rightarrow> d = i) \<and>
                        list_ex (\<lambda>p. ilike t p) params)
                (chunks db))))"

text \<open>\<^verbatim>\<open>str(n)\<close> for an integer.\<close>

fun digits :: "nat \<Rightarrow> pystr" where
  "digits n = (if n < 10 then [48 + n] else digits (n div 10) @ [48 + n mod 10])"

declare digits.simps [simp del]

definition str_int :: "int \<Rightarrow> pystr" where
  "str_int i = (if i < 0 then 45 # digits (nat (- i)) else digits (nat i))"

text \<open>\<^verbatim>\<open>sep.join(parts)\<close>\<close>

fun join :: "pystr \<Rightarrow> pystr list \<Rightarrow> pystr" where
  "join s [] = []"
| "join s [x] = x"
| "join s (x # y # ys) = x @ s @ join s (y # ys)"

text \<open>\<^verbatim>\<open>f"[Document {r[1]}, Page {r[2]}]: {r[3]}"\<close>\<close>

definition context_part :: "chunk_row \<Rightarrow> pystr" where
  "context_part r =
     (case r of
        (r0, r1, r2, r3) \<Rightarrow>
          str ''[Document '' @ str_int r1 @ str '', Page '' @ str_int r2 @ str '']: '' @ r3)"

text \<open>The fixed answers.\<close>

definition MORE_SPECIFIC :: pystr where
  "MORE_SPECIFIC = str ''Please provide a more specific question with meaningful keywords.''"

definition NO_DOCUMENTS :: pystr where
  "NO_DOCUMENTS =
     str ''No documents have been processed yet. Please upload and process a document first.''"

definition DOCUMENT_NOT_FOUND :: "int \<Rightarrow> pystr" where
  "DOCUMENT_NOT_FOUND i =
     str ''Document with ID '' @ str_int i @
     str '' not found. Please check the document ID or leave it empty to search all documents.''"

definition NO_MATCH :: pystr where
  "NO_MATCH =
     str ''I couldn'' @ [39] @
     str ''t find any relevant information in the uploaded documents to answer your question. Please try rephrasing your question or make sure you have uploaded relevant documents.''"

record QaIn =
  query :: pystr
  documentId :: "int option"
  top_k :: int

text \<open>A citation \<^verbatim>\<open>{"documentId": r[1], "page": r[2], "score": 1.0}\<close> and the response.\<close>

record citation =
  cited_document :: int
  page :: int
  score :: real

record QaOut =
  answer :: pystr
  citations :: "citation list"

text \<open>What \<open>qa\<close> asks of the database and of the answer generator, in the order of the calls.\<close>

datatype event =
    CountChunks
  | SelectDocument int
  | SearchChunks "int option" "pystr list" int
  | GenerateAnswer pystr pystr

text \<open>
  The last part of \<open>qa\<close>: the search, the context and the answer. \<open>generate\<close> is
  \<open>generate_ai_response\<close>, which returns a text whatever happens. A failed statement is
  an exception other than \<^verbatim>\<open>HTTPException\<close> and becomes the status 500.
\<close>

definition answer_from ::
    "(pystr \<Rightarrow> pystr \<Rightarrow> pystr) \<Rightarrow> database \<Rightarrow> QaIn \<Rightarrow> int option \<Rightarrow> pystr list \<Rightarrow> event list \<Rightarrow>
     (py_exception + QaOut) \<times> event list" where
  "answer_from generate db inp scope params trace =
     (case search_chunks db scope params (top_k inp) of
        Raises \<Rightarrow>
          (Inl (HTTPException 500 QaProcessingFailed),
           trace @ [SearchChunks scope params (top_k inp)])
      | Returns rows \<Rightarrow>
          if rows \<noteq> [] then
            (Inr \<lparr>answer = generate (query inp) (join [10, 10] (map context_part rows)),
                 citations =
                   map (\<lambda>(r0, r1, r2, r3). \<lparr>cited_document = r1, page = r2, score = 1\<rparr>) rows\<rparr>,
             trace @ [SearchChunks scope params (top_k inp),
                      GenerateAnswer (query inp) (join [10, 10] (map context_part rows))])
          else
            (Inr \<lparr>answer = NO_MATCH, citations = []\<rparr>,
             trace @ [SearchChunks scope params (top_k inp)]))"

text \<open>
  The endpoint. \<^verbatim>\<open>if inp.documentId:\<close> is false for \<^verbatim>\<open>None\<close> and for \<open>0\<close>. The search
  parameters are \<^verbatim>\<open>f"%{word}%"\<close>.
\<close>

definition qa ::
    "deps \<Rightarrow> (pystr \<Rightarrow> pystr \<Rightarrow> pystr) \<Rightarrow> database outcome \<Rightarrow> QaIn \<Rightarrow>
     (py_exception + QaOut) \<times> event list" where
  "qa d generate conn inp =
     (if query inp = [] \<or> strip (query inp) = [] then
        (Inl (HTTPException 422 QueryCannotBeEmpty), [])
      else
        (case pg_connect d conn of
           Inl (HTTPException code msg) \<Rightarrow> (Inl (HTTPException code msg), [])
         | Inl DriverError \<Rightarrow> (Inl (HTTPException 500 QaProcessingFailed), [])
         | Inr db \<Rightarrow>
             if query_words (query inp) = [] then
               (Inr \<lparr>answer = MORE_SPECIFIC, citations = []\<rparr>, [])
             else if length (chunks db) = 0 then
               (Inr \<lparr>answer = NO_DOCUMENTS, citations = []\<rparr>, [CountChunks])
             else
               (case documentId inp of
                  None \<Rightarrow>
                    answer_from generate db inp None
                      (map (\<lambda>word. [37] @ word @ [37]) (query_words (query inp))) [CountChunks]
                | Some i \<Rightarrow>
                    if i \<noteq> 0 then
                      (if filter (\<lambda>(r0, title, file_url, status). r0 = i) (documents db) = []
                       then (Inr \<lparr>answer = DOCUMENT_NOT_FOUND i, citations = []\<rparr>,
                             [CountChunks, SelectDocument i])
                       else answer_from generate db inp (Some i)
                              (map (\<lambda>word. [37] @ word @ [37]) (query_words (query inp)))
                              [CountChunks, SelectDocument i])
                    else
                      answer_from generate db inp None
                        (map (\<lambda>word. [37] @ word @ [37]) (query_words (query inp)))
                        [CountChunks])))"

section \<open>Example environments\<close>

definition all_available :: deps where
  "all_available = \<lparr>fitz_available = True, ocr_available = True, psycopg2_available = True\<rparr>"

definition empty_db :: database where
  "empty_db = \<lparr>documents = [], document_pages = [], chunks = [], chunks_id_seq = 0\<rparr>"

definition one_chunk_db :: database where
  "one_chunk_db =
     \<lparr>documents = [(1, str ''Document 1'', str ''minio://docs/manual.pdf'', str ''processed'')],
      document_pages = [(1, 1, 1, str ''The user-id field'')],
      chunks = [(1, 1, 1, str ''The user-id field'')],
      chunks_id_seq = 1\<rparr>"

text \<open>An answer generator that returns the context it is given.\<close>

definition echo_context :: "pystr \<Rightarrow> pystr \<Rightarrow> pystr" where
  "echo_context q c = c"

text \<open>A scanned first page, and a second page whose recognition fails.\<close>

definition scanned_doc :: "pdf_page list" where
  "scanned_doc =
     [\<lparr>get_text = str '' '', get_images = Returns 1, get_drawings = Returns 0,
       image_to_string = Returns (str ''Scanned invoice '')\<rparr>,
      \<lparr>get_text = str ''p. 2'', get_images = Returns 0, get_drawings = Returns 3,
       image_to_string = Raises\<rparr>]"

text \<open>
  The extension of a key from its last full stop on, which is \<^verbatim>\<open>pathlib.Path(key).suffix\<close>
  for a key whose last component has a full stop after its first character, and a world
  with one stored object in which the first candidate name for a temporary file is taken.
\<close>

definition last_dot_suffix :: "pystr \<Rightarrow> pystr" where
  "last_dot_suffix key =
     (if 46 \<in> set key then 46 # rev (takeWhile (\<lambda>c. c \<noteq> 46) (rev key)) else [])"

definition object_world :: world where
  "object_world =
     \<lparr>files = [str ''/tmp/tmpk3x9.pdf'' \<mapsto> str ''old''],
      objects = [(str ''docs'', str ''reports/q1.pdf'') \<mapsto> str ''%PDF-1.7''],
      requests_get = (\<lambda>url. Raises),
      tmp_dir = str ''/tmp'',
      tmp_names = [str ''k3x9'', str ''w0qz''],
      path_suffix = last_dot_suffix\<rparr>"

text \<open>
  A page of four equal sentences of 151 letters: with the chunk size 300 and the overlap 30
  every chunk after the first is the 30-letter seed, the delimiter and one sentence.
\<close>

definition long_sentence :: pystr where
  "long_sentence = replicate 151 97"

definition seeded_chunk :: pystr where
  "seeded_chunk = replicate 30 97 @ sep @ long_sentence"

definition repeating_db :: database where
  "repeating_db =
     \<lparr>documents = [(7, str ''Document 7'', str ''minio://docs/a.pdf'', str ''processed'')],
      document_pages =
        [(1, 7, 3, long_sentence @ sep @ long_sentence @ sep @ long_sentence @ sep @ long_sentence)],
      chunks = [],
      chunks_id_seq = 0\<rparr>"

section \<open>Properties of the chunker\<close>

subsection \<open>Stripping and splitting\<close>

lemma rstrip_Nil_iff: "rstrip s = [] \<longleftrightarrow> (\<forall>c\<in>set s. isspace c)"
  by (auto simp: rstrip_def dropWhile_eq_Nil_conv)

lemma lstrip_Nil_iff: "lstrip s = [] \<longleftrightarrow> (\<forall>c\<in>set s. isspace c)"
  by (simp add: lstrip_def dropWhile_eq_Nil_conv)

lemma strip_Nil_iff: "strip s = [] \<longleftrightarrow> (\<forall>c\<in>set s. isspace c)"
proof
  assume "strip s = []"
  then have a: "\<forall>c\<in>set (lstrip s). isspace c"
    by (simp add: strip_def rstrip_Nil_iff)
  show "\<forall>c\<in>set s. isspace c"
  proof (cases "lstrip s")
    case Nil
    then show ?thesis by (simp add: lstrip_Nil_iff)
  next
    case (Cons x xs)
    then have "\<not> isspace x"
      using hd_dropWhile [of isspace s] by (simp add: lstrip_def)
    moreover have "isspace x" using a Cons by simp
    ultimately show ?thesis by simp
  qed
next
  assume "\<forall>c\<in>set s. isspace c"
  then have "lstrip s = []" by (simp add: lstrip_Nil_iff)
  then show "strip s = []" by (simp add: strip_def rstrip_def)
qed

lemma strip_append_nonblank:
  "strip a \<noteq> [] \<or> strip b \<noteq> [] \<Longrightarrow> strip (a @ b) \<noteq> []"
  by (auto simp: strip_Nil_iff)

lemma rstrip_id: "s \<noteq> [] \<Longrightarrow> \<not> isspace (last s) \<Longrightarrow> rstrip s = s"
  by (cases "rev s") (simp_all add: rstrip_def last_rev hd_rev)

lemma strip_id:
  assumes "s \<noteq> []" "\<not> isspace (hd s)" "\<not> isspace (last s)"
  shows "strip s = s"
proof -
  have "lstrip s = s" using assms by (cases s) (simp_all add: lstrip_def)
  then show ?thesis using assms by (simp add: strip_def rstrip_id)
qed

lemma split_sep_no_delimiter:
  "\<not> (\<exists>pre post. text = pre @ sep @ post) \<Longrightarrow> split_sep cur text = [cur @ text]"
proof (induction cur "text" rule: split_sep.induct)
  case (3 cur c d cs)
  have nd: "\<not> (c = 46 \<and> d = 32)"
  proof
    assume "c = 46 \<and> d = 32"
    then have "c # d # cs = [] @ sep @ cs" by (simp add: sep_def)
    with "3.prems" show False by blast
  qed
  have "\<not> (\<exists>pre post. d # cs = pre @ sep @ post)"
  proof
    assume "\<exists>pre post. d # cs = pre @ sep @ post"
    then obtain pre post where "d # cs = pre @ sep @ post" by blast
    then have "c # d # cs = (c # pre) @ sep @ post" by simp
    with "3.prems" show False by blast
  qed
  with "3.IH" nd have "split_sep (cur @ [c]) (d # cs) = [(cur @ [c]) @ d # cs]" by blast
  with nd show ?case by simp
qed simp_all

lemma no_delimiter_without_full_stop:
  "46 \<notin> set text \<Longrightarrow> \<not> (\<exists>pre post. text = pre @ sep @ post)"
  by (auto simp: sep_def)

lemma split_sep_subset:
  "s \<in> set (split_sep cur text) \<Longrightarrow> set s \<subseteq> set cur \<union> set text"
  by (induction cur "text" arbitrary: s rule: split_sep.induct) (auto split: if_splits)

lemma chunk_loop_keeps:
  "chs \<noteq> [] \<or> strip cur \<noteq> [] \<Longrightarrow>
   fst (chunk_loop cs ov ss (chs, cur)) \<noteq> [] \<or> strip (snd (chunk_loop cs ov ss (chs, cur))) \<noteq> []"
proof (induction ss arbitrary: chs cur)
  case Nil
  then show ?case by simp
next
  case (Cons s ss)
  show ?case
  proof (cases "int (length cur) + int (length s) > cs \<and> cur \<noteq> []")
    case True
    then show ?thesis using Cons.IH [of "chs @ [strip cur]"] by simp
  next
    case nosplit: False
    show ?thesis
    proof (cases "chs = []")
      case True
      with Cons.prems have nb: "strip cur \<noteq> []" by simp
      then have "cur \<noteq> []" by (auto simp: strip_Nil_iff)
      moreover have "strip (cur @ sep @ s) \<noteq> []" using nb by (simp add: strip_append_nonblank)
      ultimately show ?thesis using nosplit Cons.IH [of chs "cur @ sep @ s"] by simp
    next
      case False
      then show ?thesis using nosplit Cons.IH [of chs] by auto
    qed
  qed
qed

lemma chunk_loop_gains:
  "s \<in> set ss \<Longrightarrow> strip s \<noteq> [] \<Longrightarrow>
   fst (chunk_loop cs ov ss (chs, cur)) \<noteq> [] \<or> strip (snd (chunk_loop cs ov ss (chs, cur))) \<noteq> []"
proof (induction ss arbitrary: chs cur)
  case Nil
  then show ?case by simp
next
  case (Cons x ss)
  show ?case
  proof (cases "x = s")
    case True
    have a: "strip (overlap_text ov cur @ sep @ s) \<noteq> []"
      using Cons.prems(2) strip_append_nonblank [of "overlap_text ov cur @ sep" s] by simp
    have b: "strip (cur @ sep @ s) \<noteq> []"
      using Cons.prems(2) strip_append_nonblank [of "cur @ sep" s] by simp
    show ?thesis
      using True a b Cons.prems(2)
        chunk_loop_keeps [of "chs @ [strip cur]" "overlap_text ov cur @ sep @ s" cs ov ss]
        chunk_loop_keeps [of chs "cur @ sep @ s" cs ov ss]
        chunk_loop_keeps [of chs s cs ov ss]
      by simp
  next
    case False
    with Cons.prems have "s \<in> set ss" by simp
    then show ?thesis using Cons.IH Cons.prems(2) by simp
  qed
qed


subsection \<open>The overlap seed\<close>

text \<open>
  For a positive \<open>overlap\<close> the seed of the next running chunk is the last \<open>overlap\<close>
  code points of the running chunk that was closed, and the whole of it when it is no
  longer than \<open>overlap\<close>.
\<close>

lemma overlap_text_pos:
  "0 < overlap \<Longrightarrow> overlap_text overlap cur = drop (length cur - nat overlap) cur"
  by (auto simp: overlap_text_def slice_from_def nat_diff_distrib')


lemma overlap_text_short:
  "int (length cur) \<le> overlap \<Longrightarrow> overlap_text overlap cur = cur"
  by (simp add: overlap_text_def)

lemma chunk_loop_split:
  "int (length cur) + int (length s) > chunk_size \<Longrightarrow> cur \<noteq> [] \<Longrightarrow>
   chunk_loop chunk_size overlap (s # ss) (chs, cur) =
   chunk_loop chunk_size overlap ss (chs @ [strip cur], overlap_text overlap cur @ sep @ s)"
  by simp

subsection \<open>Claims about the chunker\<close>

text \<open>
  C1 (amended). Whenever at least one of the sentence-like units obtained by cutting the
  input at the delimiter \<^verbatim>\<open>'. '\<close> is non-empty after stripping whitespace, \<open>chunk_text\<close>
  returns at least one chunk; for an input that is empty or only whitespace it returns
  the empty sequence.
\<close>

theorem chunk_text_nonempty_result:
  "((\<exists>s\<in>set (split_sep [] text). strip s \<noteq> []) \<longrightarrow> chunk_text text chunk_size overlap \<noteq> []) \<and>
   (strip text = [] \<longrightarrow> chunk_text text chunk_size overlap = [])"
proof (intro conjI impI)
  assume "\<exists>s\<in>set (split_sep [] text). strip s \<noteq> []"
  then obtain s where s: "s \<in> set (split_sep [] text)" "strip s \<noteq> []" by blast
  then have "set s \<subseteq> set text" using split_sep_subset [of s "[]" "text"] by simp
  with s(2) have nb: "strip text \<noteq> []" by (auto simp: strip_Nil_iff)
  then have ne: "text \<noteq> []" by (auto simp: strip_Nil_iff)
  obtain chs cur where l: "chunk_loop chunk_size overlap (split_sep [] text) ([], []) = (chs, cur)"
    by (cases "chunk_loop chunk_size overlap (split_sep [] text) ([], [])")
  have "chs \<noteq> [] \<or> strip cur \<noteq> []"
    using chunk_loop_gains [OF s, of chunk_size overlap "[]" "[]"] l by simp
  then show "chunk_text text chunk_size overlap \<noteq> []"
    using nb ne l by (auto simp: chunk_text_def)
next
  assume "strip text = []"
  then show "chunk_text text chunk_size overlap = []" by (simp add: chunk_text_def)
qed

theorem chunk_text_nonempty_result_witness:
  "chunk_text (str ''Hello. World'') 500 50 \<noteq> [] \<and> chunk_text (str ''   '') 500 50 = []"
proof -
  have h1: "\<exists>s\<in>set (split_sep [] (str ''Hello. World'')). strip s \<noteq> []"
    by (simp add: str_def strip_def lstrip_def rstrip_def isspace_def)
  have h2: "strip (str ''   '') = []"
    by (simp add: str_def strip_def lstrip_def rstrip_def isspace_def)
  from chunk_text_nonempty_result [of "str ''Hello. World''" 500 50] h1
  have "chunk_text (str ''Hello. World'') 500 50 \<noteq> []" by blast
  moreover from chunk_text_nonempty_result [of "str ''   ''" 500 50] h2
  have "chunk_text (str ''   '') 500 50 = []" by blast
  ultimately show ?thesis by blast
qed

text \<open>
  The claim as stated fails: the input \<^verbatim>\<open>'. '\<close> is non-empty after stripping (it strips
  to \<^verbatim>\<open>'.'\<close>), both of its sentence-like units are empty, and no chunk is returned.
\<close>

theorem chunk_text_delimiter_only_counterexample:
  "strip (str ''. '') \<noteq> [] \<and> chunk_text (str ''. '') 500 50 = []"
  by (simp add: str_def chunk_text_def strip_def lstrip_def rstrip_def isspace_def)

text \<open>
  C2. No chunk is ever emitted empty. The code breaks this: a running chunk that holds
  only whitespace is truthy, so the loop closes it and emits its stripped text, the empty
  string; only the emission after the loop tests the stripped text. For every
  positive \<open>chunk_size\<close>, the input made of a space, the delimiter and \<open>chunk_size\<close>
  letters yields an empty first chunk.
\<close>

theorem chunk_text_emits_empty_chunk:
  "0 < chunk_size \<Longrightarrow>
   chunk_text (str '' . '' @ replicate (nat chunk_size) 97) chunk_size overlap =
     [[], str ''. '' @ replicate (nat chunk_size) 97]"
proof -
  assume nn: "0 < chunk_size"
  let ?s = "replicate (nat chunk_size) (97::nat)"
  have sp: "split_sep [] (str '' . '' @ ?s) = [[32], ?s]"
    using split_sep_no_delimiter [OF no_delimiter_without_full_stop, of ?s "[]"]
    by (simp add: str_def)
  have nb: "strip (str '' . '' @ ?s) \<noteq> []"
    by (simp add: strip_Nil_iff str_def isspace_def)
  have s1: "strip [32] = []"
    by (simp add: strip_Nil_iff isspace_def)
  obtain m where m: "nat chunk_size = Suc m"
    using nn by (cases "nat chunk_size") simp_all
  have r: "rstrip (46 # 32 # ?s) = 46 # 32 # ?s"
    by (rule rstrip_id) (simp_all add: m isspace_def)
  have "overlap_text overlap [32] = [32] \<or> overlap_text overlap [32] = []"
    by (auto simp: overlap_text_def slice_from_def)
  then have s2: "strip (overlap_text overlap [32] @ 46 # 32 # ?s) = 46 # 32 # ?s"
    using r by (auto simp: strip_def lstrip_def isspace_def)
  show ?thesis
    using nn sp nb s1 s2
    by (simp add: chunk_text_def sep_def str_def)
qed

theorem chunk_text_emits_empty_chunk_witness:
  "chunk_text (str '' . '' @ replicate 300 97) 300 30 = [[], str ''. '' @ replicate 300 97]"
  using chunk_text_emits_empty_chunk [of 300 30] by simp

text \<open>
  C3. When a running chunk is closed, the next one is seeded with the trailing \<open>overlap\<close>
  characters of the closed one. The code breaks this for \<open>overlap = 0\<close>: the slice
  \<^verbatim>\<open>current_chunk[-0:]\<close> is the whole running chunk, so the second chunk repeats the
  first in full instead of sharing no characters with it.
\<close>

theorem chunk_text_zero_overlap_repeats_chunk:
  "chunk_text (str ''aaaa. bbbb'') 5 0 = [str ''aaaa'', str ''aaaa. bbbb'']"
  by (simp add: str_def chunk_text_def strip_def lstrip_def rstrip_def isspace_def
      overlap_text_def slice_from_def sep_def)

text \<open>
  C9. An input without the delimiter \<^verbatim>\<open>'. '\<close> that is not blank comes back as exactly one
  chunk, its stripped text, whatever \<open>chunk_size\<close> is; so for every \<open>chunk_size\<close> some
  input yields a chunk longer than \<open>chunk_size\<close>.
\<close>

theorem chunk_text_single_sentence:
  "(\<not> (\<exists>pre post. text = pre @ sep @ post) \<and> strip text \<noteq> [] \<longrightarrow>
      chunk_text text chunk_size overlap = [strip text]) \<and>
   (\<exists>t. \<exists>c\<in>set (chunk_text t chunk_size overlap). chunk_size < int (length c))"
proof (intro conjI impI)
  assume a: "\<not> (\<exists>pre post. text = pre @ sep @ post) \<and> strip text \<noteq> []"
  then have "text \<noteq> []" by (auto simp: strip_Nil_iff)
  then show "chunk_text text chunk_size overlap = [strip text]"
    using a by (simp add: chunk_text_def split_sep_no_delimiter)
next
  let ?t = "replicate (Suc (nat chunk_size)) (97::nat)"
  have "\<not> (\<exists>pre post. ?t = pre @ sep @ post)"
    by (rule no_delimiter_without_full_stop) simp
  moreover have st: "strip ?t = ?t" by (rule strip_id) (simp_all add: isspace_def)
  ultimately have "chunk_text ?t chunk_size overlap = [?t]"
    by (simp add: chunk_text_def split_sep_no_delimiter)
  moreover have "chunk_size < int (length ?t)" by simp
  ultimately show "\<exists>t. \<exists>c\<in>set (chunk_text t chunk_size overlap). chunk_size < int (length c)"
    by (metis list.set_intros(1))
qed

theorem chunk_text_single_sentence_witness:
  "chunk_text (str ''  one long sentence '') 5 2 = [str ''one long sentence'']"
proof -
  have h1: "\<not> (\<exists>pre post. str ''  one long sentence '' = pre @ sep @ post)"
    by (rule no_delimiter_without_full_stop) (simp add: str_def)
  have h2: "strip (str ''  one long sentence '') = str ''one long sentence''"
    by (simp add: str_def strip_def lstrip_def rstrip_def isspace_def)
  then have h3: "strip (str ''  one long sentence '') \<noteq> []"
    by (simp add: str_def)
  from chunk_text_single_sentence [of "str ''  one long sentence ''" 5 2] h1 h3
  have "chunk_text (str ''  one long sentence '') 5 2 = [strip (str ''  one long sentence '')]"
    by blast
  with h2 show ?thesis by simp
qed

section \<open>Properties of the retrieval and answer service\<close>

lemmas string_eval = str_def strip_def lstrip_def rstrip_def isspace_def lower_def lower_cp_def

lemma split_ws_blank: "\<forall>c\<in>set q. isspace c \<Longrightarrow> split_ws [] q = []"
  by (induction q) simp_all

lemma query_words_nonblank: "query_words q \<noteq> [] \<Longrightarrow> q \<noteq> [] \<and> strip q \<noteq> []"
proof -
  assume a: "query_words q \<noteq> []"
  have "strip q \<noteq> []"
  proof
    assume "strip q = []"
    then have "split_ws [] q = []" using split_ws_blank by (simp add: strip_Nil_iff)
    with a show False by (simp add: query_words_def)
  qed
  then show ?thesis by (auto simp: strip_Nil_iff)
qed

text \<open>
  A search term without \<^verbatim>\<open>%\<close>, \<^verbatim>\<open>_\<close> and backslash matches exactly the texts that contain
  it, up to case; a search returns at most \<open>top_k\<close> rows, all of them stored rows that
  match a parameter and lie in the scope; and the citations are read off the rows.
\<close>

lemma like_match_percent_only: "like_match [37] t"
  by (induction t) simp_all

lemma like_match_percent:
  "like_match (37 # ps) t \<longleftrightarrow> (\<exists>k\<le>length t. like_match ps (drop k t))"
proof (induction t)
  case Nil
  then show ?case by simp
next
  case (Cons c t)
  have "like_match (37 # ps) (c # t) \<longleftrightarrow> like_match ps (c # t) \<or> like_match (37 # ps) t"
    by simp
  also have "\<dots> \<longleftrightarrow> like_match ps (c # t) \<or> (\<exists>k\<le>length t. like_match ps (drop k t))"
    using Cons by simp
  also have "\<dots> \<longleftrightarrow> (\<exists>k\<le>length (c # t). like_match ps (drop k (c # t)))"
  proof
    assume "like_match ps (c # t) \<or> (\<exists>k\<le>length t. like_match ps (drop k t))"
    then show "\<exists>k\<le>length (c # t). like_match ps (drop k (c # t))"
    proof
      assume "like_match ps (c # t)"
      then have "like_match ps (drop 0 (c # t))" by simp
      then show ?thesis by blast
    next
      assume "\<exists>k\<le>length t. like_match ps (drop k t)"
      then obtain k where "k \<le> length t" "like_match ps (drop k t)" by blast
      then have "Suc k \<le> length (c # t) \<and> like_match ps (drop (Suc k) (c # t))" by simp
      then show ?thesis by blast
    qed
  next
    assume "\<exists>k\<le>length (c # t). like_match ps (drop k (c # t))"
    then obtain k where k: "k \<le> length (c # t)" "like_match ps (drop k (c # t))" by blast
    show "like_match ps (c # t) \<or> (\<exists>k\<le>length t. like_match ps (drop k t))"
    proof (cases k)
      case 0
      with k show ?thesis by simp
    next
      case (Suc j)
      with k have "j \<le> length t \<and> like_match ps (drop j t)" by simp
      then show ?thesis by blast
    qed
  qed
  finally show ?case .
qed

lemma like_match_literal_prefix:
  "37 \<notin> set w \<Longrightarrow> 95 \<notin> set w \<Longrightarrow> 92 \<notin> set w \<Longrightarrow>
   like_match (w @ [37]) t \<longleftrightarrow> prefix w t"
proof (induction w arbitrary: t)
  case Nil
  then show ?case by (simp add: like_match_percent_only)
next
  case (Cons p w)
  then show ?case by (cases t) auto
qed

lemma sublist_drop_prefix: "sublist w t \<longleftrightarrow> (\<exists>k\<le>length t. prefix w (drop k t))"
proof
  assume "sublist w t"
  then obtain ps ss where "t = ps @ w @ ss" by (auto simp: sublist_def)
  then have "length ps \<le> length t \<and> prefix w (drop (length ps) t)" by simp
  then show "\<exists>k\<le>length t. prefix w (drop k t)" by blast
next
  assume "\<exists>k\<le>length t. prefix w (drop k t)"
  then obtain k ss where "drop k t = w @ ss" by (auto simp: prefix_def)
  then have "t = take k t @ w @ ss" by (metis append_take_drop_id)
  then show "sublist w t" by (auto simp: sublist_def)
qed

lemma like_match_literal_term:
  "37 \<notin> set w \<Longrightarrow> 95 \<notin> set w \<Longrightarrow> 92 \<notin> set w \<Longrightarrow>
   like_match ([37] @ w @ [37]) t \<longleftrightarrow> sublist w t"
  by (simp add: like_match_percent like_match_literal_prefix sublist_drop_prefix)

lemma lower_keeps_literal:
  "37 \<notin> set w \<Longrightarrow> 95 \<notin> set w \<Longrightarrow> 92 \<notin> set w \<Longrightarrow>
   37 \<notin> set (lower w) \<and> 95 \<notin> set (lower w) \<and> 92 \<notin> set (lower w)"
  by (auto simp: lower_def lower_cp_def split: if_splits)

lemma ilike_literal_term:
  assumes "37 \<notin> set w" "95 \<notin> set w" "92 \<notin> set w"
  shows "ilike t ([37] @ w @ [37]) \<longleftrightarrow> sublist (lower w) (lower t)"
proof -
  have l: "lower ([37] @ w @ [37]) = [37] @ lower w @ [37]"
    by (simp add: lower_def lower_cp_def)
  from lower_keeps_literal [OF assms]
  have "like_match ([37] @ lower w @ [37]) (lower t) \<longleftrightarrow> sublist (lower w) (lower t)"
    by (intro like_match_literal_term) simp_all
  then show ?thesis unfolding ilike_def l .
qed

lemma search_chunks_limit:
  "search_chunks db scope params limit = Returns rows \<Longrightarrow> int (length rows) \<le> limit"
  by (auto simp: search_chunks_def split: if_splits)

lemma search_chunks_rows:
  "search_chunks db scope params limit = Returns rows \<Longrightarrow> (cid, dd, pno, t) \<in> set rows \<Longrightarrow>
   (cid, dd, pno, t) \<in> set (chunks db) \<and> (\<exists>p\<in>set params. ilike t p) \<and>
   (\<forall>i. scope = Some i \<longrightarrow> dd = i)"
  by (auto simp: search_chunks_def list_ex_iff split: if_splits option.splits dest!: in_set_takeD)

lemma answer_from_citations:
  "answer_from generate db inp scope params trace = (Inr out, trace') \<Longrightarrow>
   \<exists>rows. search_chunks db scope params (top_k inp) = Returns rows \<and>
          citations out = map (\<lambda>(r0, r1, r2, r3). \<lparr>cited_document = r1, page = r2, score = 1\<rparr>) rows"
  by (auto simp: answer_from_def split: outcome.splits if_splits)

text \<open>
  C5. Every returned chunk contains one of the search terms as a case-insensitive
  substring. The code breaks this: a term goes into the \<^verbatim>\<open>ILIKE\<close> pattern as it is, so
  \<^verbatim>\<open>_\<close>, \<^verbatim>\<open>%\<close> and the backslash in it act as wildcards and escape. The query
  \<^verbatim>\<open>user_id\<close> has the one term \<^verbatim>\<open>user_id\<close>; the stored chunk \<^verbatim>\<open>The user-id field\<close> does not
  contain it, and is returned and cited.
\<close>

theorem qa_wildcard_term_matches_without_substring:
  "qa all_available echo_context (Returns one_chunk_db)
     \<lparr>query = str ''user_id'', documentId = None, top_k = 6\<rparr> =
     (Inr \<lparr>answer = str ''[Document 1, Page 1]: The user-id field'',
          citations = [\<lparr>cited_document = 1, page = 1, score = 1\<rparr>]\<rparr>,
      [CountChunks, SearchChunks None [str ''%user_id%''] 6,
       GenerateAnswer (str ''user_id'') (str ''[Document 1, Page 1]: The user-id field'')]) \<and>
   query_words (str ''user_id'') = [str ''user_id''] \<and>
   \<not> sublist (lower (str ''user_id'')) (lower (str ''The user-id field''))"
proof -
  have "\<not> sublist (lower (str ''user_id'')) (lower (str ''The user-id field''))"
  proof
    assume "sublist (lower (str ''user_id'')) (lower (str ''The user-id field''))"
    then have "set (lower (str ''user_id'')) \<subseteq> set (lower (str ''The user-id field''))"
      by (rule set_mono_sublist)
    then show False by (simp add: string_eval)
  qed
  moreover have "query_words (str ''user_id'') = [str ''user_id'']"
    by (simp add: query_words_def string_eval)
  ultimately show ?thesis
  by (simp add: qa_def pg_connect_def all_available_def one_chunk_db_def string_eval echo_context_def
      answer_from_def search_chunks_def
      ilike_def context_part_def str_int_def digits.simps)
qed





text \<open>
  C10 (amended). When the database is reachable, the query has at least one usable search
  term and the chunk store is empty, \<open>qa\<close> returns a successful response with the "no
  documents have been processed yet" answer and no citations, and the count of the
  chunks is the only call it makes: no look-up of the document, no search, no answer
  generation.
\<close>

theorem qa_empty_store:
  assumes "psycopg2_available d" and "query_words (query inp) \<noteq> []" and "chunks db = []"
  shows "qa d generate (Returns db) inp = (Inr \<lparr>answer = NO_DOCUMENTS, citations = []\<rparr>, [CountChunks])"
proof -
  have "query inp \<noteq> [] \<and> strip (query inp) \<noteq> []"
    using assms(2) by (rule query_words_nonblank)
  then show ?thesis using assms by (simp add: qa_def pg_connect_def)
qed

theorem qa_empty_store_witness:
  "qa all_available echo_context (Returns empty_db)
     \<lparr>query = str ''refund policy'', documentId = Some 5, top_k = 6\<rparr> =
     (Inr \<lparr>answer = NO_DOCUMENTS, citations = []\<rparr>, [CountChunks])"
proof -
  have "query_words (str ''refund policy'') \<noteq> []"
    by (simp add: query_words_def string_eval)
  then show ?thesis
    using qa_empty_store [of all_available
        "\<lparr>query = str ''refund policy'', documentId = Some 5, top_k = 6\<rparr>" empty_db echo_context]
    by (simp add: all_available_def empty_db_def)
qed

text \<open>
  The claim as stated fails for a query without a usable search term: the query \<^verbatim>\<open>a\<close>
  gets the "more specific question" answer before the chunks are counted.
\<close>

theorem qa_empty_store_short_query_counterexample:
  "qa all_available echo_context (Returns empty_db)
     \<lparr>query = str ''a'', documentId = None, top_k = 6\<rparr> =
     (Inr \<lparr>answer = MORE_SPECIFIC, citations = []\<rparr>, []) \<and>
   MORE_SPECIFIC \<noteq> NO_DOCUMENTS"
  by (simp add: qa_def pg_connect_def all_available_def empty_db_def query_words_def string_eval
      NO_DOCUMENTS_def MORE_SPECIFIC_def)

section \<open>Properties of the text extractor\<close>

lemma lstrip_append_nonblank:
  "\<exists>c\<in>set a. \<not> isspace c \<Longrightarrow> lstrip (a @ b) = lstrip a @ b"
  by (auto simp: lstrip_def dropWhile_append)

lemma rstrip_append_blank: "\<forall>c\<in>set b. isspace c \<Longrightarrow> rstrip (a @ b) = rstrip a"
  by (simp add: rstrip_def dropWhile_append)

lemma rstrip_append_nonblank: "\<exists>c\<in>set b. \<not> isspace c \<Longrightarrow> rstrip (a @ b) = a @ rstrip b"
  by (auto simp: rstrip_def dropWhile_append)

lemma prefix_rstrip: "prefix (rstrip a) a"
proof -
  have "rev a = takeWhile isspace (rev a) @ dropWhile isspace (rev a)" by simp
  then have "a = rev (dropWhile isspace (rev a)) @ rev (takeWhile isspace (rev a))"
    by (metis rev_append rev_rev_ident)
  then show ?thesis unfolding rstrip_def by (metis prefixI)
qed

lemma prefix_strip_append: "prefix (strip a) (strip (a @ b))"
proof (cases "\<forall>c\<in>set a. isspace c")
  case True
  then show ?thesis by (simp add: strip_Nil_iff [THEN iffD2])
next
  case False
  then have l: "lstrip (a @ b) = lstrip a @ b" by (simp add: lstrip_append_nonblank)
  show ?thesis
  proof (cases "\<forall>c\<in>set b. isspace c")
    case True
    then show ?thesis by (simp add: strip_def l rstrip_append_blank)
  next
    case False
    then have "rstrip (lstrip a @ b) = lstrip a @ rstrip b" by (simp add: rstrip_append_nonblank)
    then show ?thesis
      using prefix_rstrip [of "lstrip a"] by (simp add: strip_def l prefix_def) (metis append.assoc)
  qed
qed

lemma page_text_called:
  "snd (page_text libs p) \<Longrightarrow>
   length (strip (get_text p)) < 20 \<and> libs \<and>
   ((\<exists>n. get_images p = Returns n \<and> n \<noteq> 0) \<or> (\<exists>m. get_drawings p = Returns m \<and> m \<noteq> 0))"
  by (auto simp: page_text_def run_ocr_def split: if_splits outcome.splits)

lemma page_text_result:
  "fst (page_text libs p) =
     (if snd (page_text libs p) then
        (case image_to_string p of
           Raises \<Rightarrow> get_text p
         | Returns ocr \<Rightarrow> strip (get_text p @ [10] @ ocr))
      else get_text p)"
  by (auto simp: page_text_def run_ocr_def split: if_splits outcome.splits)

lemma length_extract_pages: "length (fst (extract_pages libs i doc)) = length doc"
  by (induction doc arbitrary: i) (simp_all add: case_prod_beta)

lemma nth_extract_pages:
  "k < length doc \<Longrightarrow>
   fst (extract_pages libs i doc) ! k = \<lparr>page_no = i + k + 1, text' = fst (page_text libs (doc ! k))\<rparr>"
proof (induction doc arbitrary: i k)
  case Nil
  then show ?case by simp
next
  case (Cons p doc)
  show ?case
  proof (cases k)
    case 0
    then show ?thesis by (simp add: case_prod_beta)
  next
    case (Suc j)
    with Cons.prems have "j < length doc" by simp
    from Cons.IH [OF this, of "i + 1"] Suc show ?thesis by (simp add: case_prod_beta)
  qed
qed

lemma extract_pages_log_lower: "n \<in> set (snd (extract_pages libs i doc)) \<Longrightarrow> i < n"
proof (induction doc arbitrary: i)
  case Nil
  then show ?case by simp
next
  case (Cons p doc)
  then show ?case
    using Cons.IH [of "Suc i"] by (fastforce simp: case_prod_beta split: if_splits)
qed

lemma extract_pages_log:
  "k < length doc \<Longrightarrow>
   (i + k + 1 \<in> set (snd (extract_pages libs i doc))) = snd (page_text libs (doc ! k))"
proof (induction doc arbitrary: i k)
  case Nil
  then show ?case by simp
next
  case (Cons p doc)
  show ?case
  proof (cases k)
    case 0
    then show ?thesis
      using extract_pages_log_lower [of "i + 1" libs "i + 1" doc]
      by (auto simp: case_prod_beta)
  next
    case (Suc j)
    with Cons.prems have "j < length doc" by simp
    from Cons.IH [OF this, of "i + 1"] Suc show ?thesis by (auto simp: case_prod_beta)
  qed
qed

text \<open>
  C4. With the PDF library present, \<open>extract_text_from_pdf\<close> returns one entry per page,
  numbered from 1. The OCR engine is called on a page only if the stripped extracted
  text is shorter than 20 characters and the page lists an image or a drawing. When it
  was called and returned, the page's text is the extracted text, a newline and the
  recognised text, stripped, so the stripped extracted text is kept as its beginning;
  when it was not called or has raised, the page's text is the extracted text, and the
  later pages are processed all the same.
\<close>

theorem extract_text_ocr_policy:
  assumes "fitz_available d" and "k < length doc"
  shows "\<exists>pages ocr_pages.
           extract_text_from_pdf d (Returns doc) = Inr (pages, ocr_pages) \<and>
           length pages = length doc \<and> page_no (pages ! k) = k + 1 \<and>
           (k + 1 \<in> set ocr_pages \<longrightarrow>
              length (strip (get_text (doc ! k))) < 20 \<and>
              ((\<exists>n. get_images (doc ! k) = Returns n \<and> n \<noteq> 0) \<or>
               (\<exists>m. get_drawings (doc ! k) = Returns m \<and> m \<noteq> 0))) \<and>
           (\<forall>ocr. k + 1 \<in> set ocr_pages \<and> image_to_string (doc ! k) = Returns ocr \<longrightarrow>
              text' (pages ! k) = strip (get_text (doc ! k) @ [10] @ ocr) \<and>
              prefix (strip (get_text (doc ! k))) (text' (pages ! k))) \<and>
           (k + 1 \<notin> set ocr_pages \<or> image_to_string (doc ! k) = Raises \<longrightarrow>
              text' (pages ! k) = get_text (doc ! k))"
proof -
  let ?r = "extract_pages (ocr_available d) 0 doc"
  let ?p = "doc ! k"
  have e: "extract_text_from_pdf d (Returns doc) = Inr (fst ?r, snd ?r)"
    using assms(1) by (simp add: extract_text_from_pdf_def)
  have n: "fst ?r ! k = \<lparr>page_no = k + 1, text' = fst (page_text (ocr_available d) ?p)\<rparr>"
    using nth_extract_pages [OF assms(2), of "ocr_available d" 0] by simp
  have l: "(Suc k \<in> set (snd ?r)) = snd (page_text (ocr_available d) ?p)"
    using extract_pages_log [OF assms(2), of 0 "ocr_available d"] by simp
  have c1: "length (fst ?r) = length doc" by (rule length_extract_pages)
  have c2: "page_no (fst ?r ! k) = k + 1" by (simp add: n)
  have c3: "k + 1 \<in> set (snd ?r) \<longrightarrow>
              length (strip (get_text ?p)) < 20 \<and>
              ((\<exists>n. get_images ?p = Returns n \<and> n \<noteq> 0) \<or>
               (\<exists>m. get_drawings ?p = Returns m \<and> m \<noteq> 0))"
    using page_text_called [of "ocr_available d" ?p] l by auto
  have c4: "\<forall>ocr. k + 1 \<in> set (snd ?r) \<and> image_to_string ?p = Returns ocr \<longrightarrow>
              text' (fst ?r ! k) = strip (get_text ?p @ [10] @ ocr) \<and>
              prefix (strip (get_text ?p)) (text' (fst ?r ! k))"
    using page_text_result [of "ocr_available d" ?p] prefix_strip_append [of "get_text ?p"] l
    by (auto simp: n)
  have c5: "k + 1 \<notin> set (snd ?r) \<or> image_to_string ?p = Raises \<longrightarrow>
              text' (fst ?r ! k) = get_text ?p"
    using page_text_result [of "ocr_available d" ?p] l by (auto simp: n)
  from e c1 c2 c3 c4 c5 show ?thesis by blast
qed

lemma scanned_doc_result:
  "extract_text_from_pdf all_available (Returns scanned_doc) =
     Inr ([\<lparr>page_no = 1, text' = str ''Scanned invoice''\<rparr>, \<lparr>page_no = 2, text' = str ''p. 2''\<rparr>], [1, 2])"
  by (simp add: extract_text_from_pdf_def all_available_def scanned_doc_def page_text_def
      run_ocr_def string_eval)

theorem extract_text_ocr_policy_witness:
  "\<exists>pages ocr_pages.
     extract_text_from_pdf all_available (Returns scanned_doc) = Inr (pages, ocr_pages) \<and>
     length pages = 2 \<and> page_no (pages ! 0) = 1 \<and> 1 \<in> set ocr_pages \<and>
     text' (pages ! 0) = str ''Scanned invoice''"
proof -
  have "fitz_available all_available" and "0 < length scanned_doc"
    by (simp_all add: all_available_def scanned_doc_def)
  from extract_text_ocr_policy [OF this]
  obtain pages ocr_pages where
    r: "extract_text_from_pdf all_available (Returns scanned_doc) = Inr (pages, ocr_pages)"
    and "length pages = length scanned_doc" and "page_no (pages ! 0) = 0 + 1"
    and t: "\<forall>ocr. 0 + 1 \<in> set ocr_pages \<and> image_to_string (scanned_doc ! 0) = Returns ocr \<longrightarrow>
              text' (pages ! 0) = strip (get_text (scanned_doc ! 0) @ [10] @ ocr) \<and>
              prefix (strip (get_text (scanned_doc ! 0))) (text' (pages ! 0))"
    by blast
  from r have o: "ocr_pages = [1, 2]" by (simp add: scanned_doc_result)
  have "image_to_string (scanned_doc ! 0) = Returns (str ''Scanned invoice '')"
    by (simp add: scanned_doc_def)
  with t o have "text' (pages ! 0) = strip (get_text (scanned_doc ! 0) @ [10] @ str ''Scanned invoice '')"
    by simp
  also have "\<dots> = str ''Scanned invoice''"
    by (simp add: scanned_doc_def string_eval)
  finally have "text' (pages ! 0) = str ''Scanned invoice''" .
  with r o \<open>length pages = length scanned_doc\<close> \<open>page_no (pages ! 0) = 0 + 1\<close>
  show ?thesis by (simp add: scanned_doc_def)
qed

section \<open>Properties of the source fetcher\<close>

lemma slash_split_iff: "(\<exists>bucket key. path = bucket @ [47] @ key) \<longleftrightarrow> 47 \<in> set path"
  by (auto simp: in_set_conv_decomp)

lemma split_once_found:
  "c \<in> set s \<Longrightarrow>
   \<exists>b k. split_once c s = [b, k] \<and> s = b @ [c] @ k \<and> c \<notin> set b"
proof -
  assume a: "c \<in> set s"
  let ?b = "takeWhile (\<lambda>x. x \<noteq> c) s" and ?d = "dropWhile (\<lambda>x. x \<noteq> c) s"
  have "?d \<noteq> []" using a by (auto simp: dropWhile_eq_Nil_conv)
  moreover have "hd ?d = c" using a hd_dropWhile [of "\<lambda>x. x \<noteq> c" s] calculation by auto
  ultimately have "?d = c # tl ?d" by (cases ?d) auto
  then have "s = ?b @ [c] @ tl ?d"
    using takeWhile_dropWhile_id [of "\<lambda>x. x \<noteq> c" s] by simp
  moreover have "c \<notin> set ?b" by (auto dest: set_takeWhileD)
  ultimately show ?thesis using a by (auto simp: split_once_def)
qed

lemma split_first_unique:
  "b @ [c] @ k = b' @ [c] @ k' \<Longrightarrow> c \<notin> set b \<Longrightarrow> c \<notin> set b' \<Longrightarrow> b = b' \<and> k = k'"
proof (induction b arbitrary: b')
  case Nil
  then show ?case by (cases b') auto
next
  case (Cons x b)
  then show ?case by (cases b') auto
qed

lemma mktemp_Some:
  "mktemp fs dir names sfx = Some local \<Longrightarrow> fs local = None \<and> suffix sfx local"
proof (induction names)
  case Nil
  then show ?case by simp
next
  case (Cons name names)
  have "suffix sfx (path_join dir (str ''tmp'' @ name @ sfx))"
    by (auto simp: path_join_def suffix_def)
  with Cons show ?case by (auto split: if_splits)
qed

lemma minio_scheme:
  "\<not> prefix (str ''file://'') (str ''minio://'' @ path)"
  "prefix (str ''minio://'') (str ''minio://'' @ path)"
  "drop 8 (str ''minio://'') = []"
  "8 - length (str ''minio://'') = 0"
  by (simp_all add: str_def)

text \<open>
  C8. For a locator \<^verbatim>\<open>minio://<path>\<close> the fetch fails with the error "minio url must be
  minio://bucket/key" if and only if the path cannot be written as a bucket, a slash and
  a key. Otherwise every successful fetch has copied the object of that bucket and key
  to a file that did not exist before and whose name ends with the suffix of the key;
  and the fetch is successful whenever the object is in the store and a temporary name
  is free.
\<close>

theorem download_from_minio_locator:
  "(fst (download_from_minio w (str ''minio://'' @ path)) = Inl MinioUrlMalformed \<longleftrightarrow>
      \<not> (\<exists>bucket key. path = bucket @ [47] @ key)) \<and>
   (\<forall>local. fst (download_from_minio w (str ''minio://'' @ path)) = Inr local \<longrightarrow>
      (\<exists>bucket key body.
         path = bucket @ [47] @ key \<and> 47 \<notin> set bucket \<and>
         objects w (bucket, key) = Some body \<and>
         files w local = None \<and> suffix (path_suffix w key) local \<and>
         snd (download_from_minio w (str ''minio://'' @ path)) =
           w\<lparr>files := (files w)(local \<mapsto> body)\<rparr>)) \<and>
   (\<forall>bucket key body.
      path = bucket @ [47] @ key \<and> 47 \<notin> set bucket \<and> objects w (bucket, key) = Some body \<and>
      mktemp (files w) (tmp_dir w) (tmp_names w) (path_suffix w key) \<noteq> None \<longrightarrow>
      (\<exists>local. fst (download_from_minio w (str ''minio://'' @ path)) = Inr local))"
proof (cases "47 \<in> set path")
  case False
  then have "split_once 47 path = [path]" by (simp add: split_once_def)
  then have "download_from_minio w (str ''minio://'' @ path) = (Inl MinioUrlMalformed, w)"
    by (simp add: download_from_minio_def minio_scheme)
  moreover have "\<not> (\<exists>bucket key. path = bucket @ [47] @ key)"
    using False by (simp only: slash_split_iff not_False_eq_True)
  ultimately show ?thesis by simp
next
  case True
  then obtain b k where bk: "split_once 47 path = [b, k]" "path = b @ [47] @ k" "47 \<notin> set b"
    using split_once_found by blast
  let ?m = "mktemp (files w) (tmp_dir w) (tmp_names w) (path_suffix w k)"
  have d: "download_from_minio w (str ''minio://'' @ path) =
     (case ?m of
        None \<Rightarrow> (Inl FileExistsError, w)
      | Some local \<Rightarrow>
          (case objects w (b, k) of
             None \<Rightarrow> (Inl S3ClientError, w)
           | Some body \<Rightarrow> (Inr local, w\<lparr>files := (files w)(local \<mapsto> body)\<rparr>)))"
    by (simp add: download_from_minio_def minio_scheme bk(1))
  have c1: "fst (download_from_minio w (str ''minio://'' @ path)) \<noteq> Inl MinioUrlMalformed"
    by (simp add: d split: option.splits)
  have c2: "\<forall>local. fst (download_from_minio w (str ''minio://'' @ path)) = Inr local \<longrightarrow>
      (\<exists>bucket key body.
         path = bucket @ [47] @ key \<and> 47 \<notin> set bucket \<and>
         objects w (bucket, key) = Some body \<and>
         files w local = None \<and> suffix (path_suffix w key) local \<and>
         snd (download_from_minio w (str ''minio://'' @ path)) =
           w\<lparr>files := (files w)(local \<mapsto> body)\<rparr>)"
  proof (intro allI impI)
    fix local
    assume r: "fst (download_from_minio w (str ''minio://'' @ path)) = Inr local"
    then obtain body where m: "?m = Some local" and o: "objects w (b, k) = Some body"
      by (auto simp: d split: option.splits)
    from mktemp_Some [OF m] have "files w local = None" "suffix (path_suffix w k) local" by simp_all
    moreover have "snd (download_from_minio w (str ''minio://'' @ path)) =
        w\<lparr>files := (files w)(local \<mapsto> body)\<rparr>"
      by (simp add: d m o)
    ultimately show "\<exists>bucket key body.
         path = bucket @ [47] @ key \<and> 47 \<notin> set bucket \<and>
         objects w (bucket, key) = Some body \<and>
         files w local = None \<and> suffix (path_suffix w key) local \<and>
         snd (download_from_minio w (str ''minio://'' @ path)) =
           w\<lparr>files := (files w)(local \<mapsto> body)\<rparr>"
      using bk(2,3) o by blast
  qed
  have c3: "\<forall>bucket key body.
      path = bucket @ [47] @ key \<and> 47 \<notin> set bucket \<and> objects w (bucket, key) = Some body \<and>
      mktemp (files w) (tmp_dir w) (tmp_names w) (path_suffix w key) \<noteq> None \<longrightarrow>
      (\<exists>local. fst (download_from_minio w (str ''minio://'' @ path)) = Inr local)"
  proof (intro allI impI)
    fix bucket key body
    assume h: "path = bucket @ [47] @ key \<and> 47 \<notin> set bucket \<and> objects w (bucket, key) = Some body \<and>
      mktemp (files w) (tmp_dir w) (tmp_names w) (path_suffix w key) \<noteq> None"
    then have "bucket @ [47] @ key = b @ [47] @ k" using bk(2) by (elim conjE) (rule trans [OF sym])
    moreover from h have "47 \<notin> set bucket" by (elim conjE)
    ultimately have e: "bucket = b \<and> key = k" using bk(3) by (rule split_first_unique)
    from h obtain loc where "mktemp (files w) (tmp_dir w) (tmp_names w) (path_suffix w key) = Some loc"
      by (elim conjE) blast
    moreover from h have "objects w (bucket, key) = Some body" by (elim conjE)
    ultimately have "fst (download_from_minio w (str ''minio://'' @ path)) = Inr loc"
      using e by (simp add: d)
    then show "\<exists>local. fst (download_from_minio w (str ''minio://'' @ path)) = Inr local" ..
  qed
  have i: "\<exists>bucket key. path = bucket @ [47] @ key"
    using True by (simp only: slash_split_iff)
  from c1 i have "fst (download_from_minio w (str ''minio://'' @ path)) = Inl MinioUrlMalformed \<longleftrightarrow>
      \<not> (\<exists>bucket key. path = bucket @ [47] @ key)" by blast
  then show ?thesis using c2 c3 by (intro conjI)
qed

theorem download_from_minio_locator_witness:
  "fst (download_from_minio object_world (str ''minio://'' @ str ''docs'')) = Inl MinioUrlMalformed \<and>
   (\<exists>local. fst (download_from_minio object_world (str ''minio://'' @ str ''docs/reports/q1.pdf'')) =
      Inr local)"
proof -
  have "\<not> (\<exists>bucket key. str ''docs'' = bucket @ [47] @ key)"
    using slash_split_iff [of "str ''docs''"] by (simp add: str_def)
  with download_from_minio_locator [of object_world "str ''docs''"]
  have a: "fst (download_from_minio object_world (str ''minio://'' @ str ''docs'')) =
      Inl MinioUrlMalformed" by blast
  have "str ''docs/reports/q1.pdf'' = str ''docs'' @ [47] @ str ''reports/q1.pdf'' \<and>
      47 \<notin> set (str ''docs'') \<and>
      objects object_world (str ''docs'', str ''reports/q1.pdf'') = Some (str ''%PDF-1.7'') \<and>
      mktemp (files object_world) (tmp_dir object_world) (tmp_names object_world)
        (path_suffix object_world (str ''reports/q1.pdf'')) \<noteq> None"
    by (simp add: object_world_def str_def last_dot_suffix_def path_join_def)
  with download_from_minio_locator [of object_world "str ''docs/reports/q1.pdf''"]
  have "\<exists>local. fst (download_from_minio object_world (str ''minio://'' @ str ''docs/reports/q1.pdf'')) =
      Inr local" by blast
  with a show ?thesis by blast
qed

lemma object_world_download:
  "download_from_minio object_world (str ''minio://docs/reports/q1.pdf'') =
     (Inr (str ''/tmp/tmpw0qz.pdf''),
      object_world\<lparr>files := (files object_world)(str ''/tmp/tmpw0qz.pdf'' \<mapsto> str ''%PDF-1.7'')\<rparr>)"
  by (simp add: download_from_minio_def object_world_def str_def last_dot_suffix_def path_join_def
      split_once_def)

section \<open>Properties of chunk-and-store\<close>

lemma split_sep_block:
  "46 \<notin> set a \<Longrightarrow> split_sep cur (a @ sep @ rest) = (cur @ a) # split_sep [] rest"
proof (induction a arbitrary: cur)
  case Nil
  then show ?case by (simp add: sep_def)
next
  case (Cons x a)
  then have x: "x \<noteq> 46" by auto
  obtain y ys where y: "a @ sep @ rest = y # ys" by (cases "a @ sep @ rest") (auto simp: sep_def)
  have "split_sep cur ((x # a) @ sep @ rest) = split_sep (cur @ [x]) (a @ sep @ rest)"
    using x y by simp
  also have "\<dots> = ((cur @ [x]) @ a) # split_sep [] rest" using Cons by simp
  finally show ?case by simp
qed

lemma long_sentence_facts:
  "46 \<notin> set long_sentence" "length long_sentence = 151" "long_sentence \<noteq> []"
  "strip long_sentence = long_sentence"
  "overlap_text 30 long_sentence = replicate 30 97"
proof -
  show "46 \<notin> set long_sentence" "length long_sentence = 151" "long_sentence \<noteq> []"
    by (simp_all add: long_sentence_def)
  show "strip long_sentence = long_sentence"
    by (rule strip_id) (simp_all add: long_sentence_def isspace_def)
  show "overlap_text 30 long_sentence = replicate 30 97"
    by (simp add: overlap_text_def slice_from_def long_sentence_def)
qed

lemma seeded_chunk_facts:
  "length seeded_chunk = 183" "seeded_chunk \<noteq> []"
  "strip seeded_chunk = seeded_chunk"
  "overlap_text 30 seeded_chunk = replicate 30 97"
proof -
  show "length seeded_chunk = 183" "seeded_chunk \<noteq> []"
    by (simp_all add: seeded_chunk_def long_sentence_def sep_def)
  show "strip seeded_chunk = seeded_chunk"
    by (rule strip_id) (simp_all add: seeded_chunk_def long_sentence_def sep_def isspace_def)
  show "overlap_text 30 seeded_chunk = replicate 30 97"
    by (simp add: overlap_text_def slice_from_def seeded_chunk_def long_sentence_def sep_def)
qed

lemma repeating_text_chunks:
  "chunk_text (long_sentence @ sep @ long_sentence @ sep @ long_sentence @ sep @ long_sentence) 300 30 =
     [long_sentence, seeded_chunk, seeded_chunk, seeded_chunk]"
proof -
  let ?t = "long_sentence @ sep @ long_sentence @ sep @ long_sentence @ sep @ long_sentence"
  have sp: "split_sep [] ?t = [long_sentence, long_sentence, long_sentence, long_sentence]"
    using split_sep_no_delimiter [OF no_delimiter_without_full_stop, of long_sentence "[]"]
    by (simp add: split_sep_block long_sentence_facts)
  have nb: "?t \<noteq> [] \<and> strip ?t \<noteq> []"
    by (simp add: strip_Nil_iff long_sentence_def isspace_def)
  have s: "replicate 30 97 @ sep @ long_sentence = seeded_chunk" by (simp add: seeded_chunk_def)
  have lp: "chunk_loop 300 30 [long_sentence, long_sentence, long_sentence, long_sentence] ([], []) =
      ([long_sentence, seeded_chunk, seeded_chunk], seeded_chunk)"
    by (simp add: long_sentence_facts seeded_chunk_facts s)
  have "strip seeded_chunk \<noteq> []" by (simp add: seeded_chunk_facts)
  then show ?thesis
    unfolding chunk_text_def sp lp using nb by (simp add: seeded_chunk_facts(3))
qed

lemma execute_values_append:
  "execute_values db (a @ b) = execute_values (execute_values db a) b"
  by (induction a arbitrary: db) auto

lemma execute_values_result:
  "execute_values db rs =
     db\<lparr>chunks := chunks db @ zip (map (\<lambda>n. chunks_id_seq db + 1 + int n) [0..<length rs]) rs,
        chunks_id_seq := chunks_id_seq db + int (length rs)\<rparr>"
proof (induction rs arbitrary: db)
  case Nil
  then show ?case by simp
next
  case (Cons r rs)
  obtain dd pno t where r: "r = (dd, pno, t)" by (cases r)
  have "map (\<lambda>n. chunks_id_seq db + 1 + int n) [0..<Suc (length rs)] =
        (chunks_id_seq db + 1) # map (\<lambda>n. chunks_id_seq db + 1 + 1 + int n) [0..<length rs]"
    by (simp add: upt_conv_Cons map_Suc_upt [symmetric] del: upt_Suc) 
  then show ?case by (simp add: r Cons.IH add.assoc)
qed

lemma records_append: "records (a @ b) = records a @ records b"
  by (simp add: records_def)

lemma store_batches_all:
  "store_batches i cs db = execute_values db (records (drop i cs))"
proof (induction i cs db rule: store_batches.induct)
  case (1 i cs db)
  show ?case
  proof (cases "i < length cs")
    case True
    have "records (drop i cs) = records (take 100 (drop i cs)) @ records (drop (i + 100) cs)"
      by (metis records_append append_take_drop_id drop_drop add.commute)
    with True "1.IH" show ?thesis
      by (subst store_batches.simps) (simp add: execute_values_append)
  next
    case False
    then show ?thesis by (subst store_batches.simps) (simp add: records_def)
  qed
qed

lemma map_enumerate_snd: "map (\<lambda>x. f (snd x)) (enumerate n xs) = map f xs"
  by (induction xs arbitrary: n) simp_all

lemma records_page_chunks:
  "records (page_chunks document_id (rid, pno, t)) =
     map (\<lambda>c. (document_id, pno, c)) (chunk_text t 300 30)"
proof (cases "t = [] \<or> length (strip t) = 0")
  case True
  then show ?thesis by (auto simp: page_chunks_def records_def chunk_text_def)
next
  case False
  then show ?thesis
    using map_enumerate_snd [of "\<lambda>c. (document_id, pno, c)" 0 "chunk_text t 300 30"]
    by (simp add: page_chunks_def records_def case_prod_beta comp_def)
qed

lemma records_concat: "records (concat xss) = concat (map records xss)"
  by (induction xss) (simp_all add: records_def)

lemma records_page_rows:
  "concat (map records (map (page_chunks document_id) (map (\<lambda>(rid, dd, pno, t). (rid, pno, t)) ps))) =
     concat (map (\<lambda>(rid, dd, pno, t). map (\<lambda>c. (document_id, pno, c)) (chunk_text t 300 30)) ps)"
  by (induction ps) (auto simp: records_page_chunks)

lemma records_all_chunks:
  "records (all_chunks db document_id) =
     concat (map (\<lambda>(rid, dd, pno, t). map (\<lambda>c. (document_id, pno, c)) (chunk_text t 300 30))
       (filter (\<lambda>(rid, dd, pno, t). dd = document_id) (document_pages db)))"
  unfolding all_chunks_def records_concat by (rule records_page_rows)

lemma repeating_db_all_chunks:
  "all_chunks repeating_db 7 =
     [(7, 3, 0, long_sentence), (7, 3, 1, seeded_chunk), (7, 3, 2, seeded_chunk),
      (7, 3, 3, seeded_chunk)]"
proof -
  let ?t = "long_sentence @ sep @ long_sentence @ sep @ long_sentence @ sep @ long_sentence"
  have nb: "(?t = [] \<or> length (strip ?t) = 0) = False"
    by (simp add: strip_Nil_iff long_sentence_def isspace_def)
  have p: "document_pages repeating_db = [(1, 7, 3, ?t)]"
    by (simp add: repeating_db_def)
  have pc: "page_chunks 7 (1, 3, ?t) =
     [(7, 3, 0, long_sentence), (7, 3, 1, seeded_chunk), (7, 3, 2, seeded_chunk),
      (7, 3, 3, seeded_chunk)]"
    unfolding page_chunks_def prod.case nb if_False repeating_text_chunks
    by (simp add: numeral_2_eq_2 numeral_3_eq_3)
  have f: "filter (\<lambda>(rid, d, pno, t). d = 7) [(1, 7, 3, ?t)] = [(1, 7, 3, ?t)]"
    by (simp only: filter.simps prod.case refl if_True)
  show ?thesis
    unfolding all_chunks_def p f list.map prod.case concat.simps pc by (simp only: append_Nil2)
qed

text \<open>
  C7 (amended). With the database reachable, \<open>embed_document\<close> appends to the chunk
  table, for the pages of the document in order and the chunks of each page in order,
  one row holding the next id of the sequence, the document identifier, the page number
  and the chunk text, and nothing else: the ordinal index of the chunk within its page
  is not stored.
\<close>

theorem embed_document_stored_rows:
  "psycopg2_available d \<Longrightarrow>
   (let stored =
      concat (map (\<lambda>(rid, dd, pno, t). map (\<lambda>c. (document_id, pno, c)) (chunk_text t 300 30))
        (filter (\<lambda>(rid, dd, pno, t). dd = document_id) (document_pages db)))
    in embed_document d (Returns db) document_id =
         Inr (db\<lparr>chunks :=
                  chunks db @ zip (map (\<lambda>n. chunks_id_seq db + 1 + int n) [0..<length stored]) stored,
                chunks_id_seq := chunks_id_seq db + int (length stored)\<rparr>))"
proof -
  assume a: "psycopg2_available d"
  have e: "embed_document d (Returns db) document_id =
      Inr (execute_values db (records (all_chunks db document_id)))"
  proof (cases "all_chunks db document_id = []")
    case True
    then show ?thesis using a by (simp add: embed_document_def pg_connect_def records_def)
  next
    case False
    then show ?thesis using a by (simp add: embed_document_def pg_connect_def store_batches_all)
  qed
  show ?thesis
    unfolding Let_def e records_all_chunks [symmetric] by (simp add: execute_values_result)
qed

theorem embed_document_stored_rows_witness:
  "embed_document all_available (Returns one_chunk_db) 1 =
     Inr (one_chunk_db\<lparr>chunks := [(1, 1, 1, str ''The user-id field''), (2, 1, 1, str ''The user-id field'')],
                      chunks_id_seq := 2\<rparr>)"
proof -
  have c: "chunk_text (str ''The user-id field'') 300 30 = [str ''The user-id field'']"
    by (simp add: chunk_text_def string_eval)
  have "psycopg2_available all_available" by (simp add: all_available_def)
  from embed_document_stored_rows [OF this, of 1 one_chunk_db]
  show ?thesis by (simp add: one_chunk_db_def c Let_def)
qed

text \<open>
  The claim as stated fails: for the page of four equal sentences the chunks with the
  ordinals 1, 2 and 3 are stored as rows that agree in every column but the id the
  database gives them.
\<close>

theorem embed_document_drops_ordinal_counterexample:
  "all_chunks repeating_db 7 =
     [(7, 3, 0, long_sentence), (7, 3, 1, seeded_chunk), (7, 3, 2, seeded_chunk),
      (7, 3, 3, seeded_chunk)] \<and>
   embed_document all_available (Returns repeating_db) 7 =
     Inr (repeating_db\<lparr>chunks := [(1, 7, 3, long_sentence), (2, 7, 3, seeded_chunk),
                                  (3, 7, 3, seeded_chunk), (4, 7, 3, seeded_chunk)],
                      chunks_id_seq := 4\<rparr>)"
proof -
  have "store_batches 0 (all_chunks repeating_db 7) repeating_db =
      execute_values repeating_db
        [(7, 3, long_sentence), (7, 3, seeded_chunk), (7, 3, seeded_chunk), (7, 3, seeded_chunk)]"
    by (simp add: store_batches_all repeating_db_all_chunks records_def)
  also have "\<dots> =
      repeating_db\<lparr>chunks := [(1, 7, 3, long_sentence), (2, 7, 3, seeded_chunk),
                                  (3, 7, 3, seeded_chunk), (4, 7, 3, seeded_chunk)],
                      chunks_id_seq := 4\<rparr>"
    by (simp add: repeating_db_def)
  finally show ?thesis
    by (simp add: repeating_db_all_chunks embed_document_def pg_connect_def all_available_def)
qed

end
